theory Spec2Isabelle
  imports Complex_Main "HOL-Library.AList"
begin

section \<open>Data model of pagerank.py\<close>

text \<open>
  A page is a file name. A Python dictionary keeps its keys in insertion order and the
  program iterates over dictionaries, so a dictionary is an association list with
  distinct keys; \<open>d[k] = v\<close> is \<^const>\<open>AList.update\<close> (an existing key keeps its
  place, a new key goes last). A Python set is iterated in an order of its own that
  stays the same while the set is not changed: the set of links of a page is the list
  of its elements in that order, without repetition, so \<open>len\<close> is
  \<^const>\<open>length\<close> and \<open>in\<close> is membership.

  Python floats are modelled by exact rationals, and \<open>round(x, 4)\<close> by rounding to
  the nearest multiple of \<open>1/10000\<close>, a tie going to the even neighbour. Python
  rounds the binary float, which lies a little to one side of a value that is half-way
  between two multiples in exact arithmetic (\<open>(1 - 0.85)/24\<close> is \<open>0.00625\<close>
  exactly, the float is just above it and rounds to \<open>0.0063\<close>), and it compares floats
  with \<open>0.001\<close>, where a change of exactly \<open>0.001\<close> can fall on either side. So
  the model and the program can differ at or next to such a tie or edge. The
  general theorems use of the rounding only that its result is a multiple of
  \<open>1/10000\<close> at most \<open>1/20000\<close> away from its argument, which holds of either
  neighbour; the runs on concrete graphs meet no tie and no change of exactly
  \<open>0.001\<close>.
\<close>

type_synonym page = string
type_synonym corpus = "(page \<times> page list) list"
type_synonym ranks = "(page \<times> rat) list"

datatype py_error = KeyError | ValueError | ZeroDivisionError

definition wf_corpus :: "corpus \<Rightarrow> bool" where
  "wf_corpus corpus \<longleftrightarrow>
     distinct (map fst corpus) \<and> list_all (\<lambda>(p, links). distinct links) corpus"

text \<open>The invariant \<open>crawl\<close> establishes: links stay inside the corpus, no page links to itself.\<close>

definition crawled :: "corpus \<Rightarrow> bool" where
  "crawled corpus \<longleftrightarrow>
     wf_corpus corpus \<and>
     list_all (\<lambda>(p, links). p \<notin> set links \<and> list_all (\<lambda>q. q \<in> set (map fst corpus)) links) corpus"

text \<open>\<open>d[k]\<close> raises \<open>KeyError\<close> on a missing key.\<close>

definition lookup :: "('k \<times> 'v) list \<Rightarrow> 'k \<Rightarrow> py_error + 'v" where
  "lookup d k = (case map_of d k of None \<Rightarrow> Inl KeyError | Some v \<Rightarrow> Inr v)"

definition py_round4 :: "rat \<Rightarrow> rat" where
  "py_round4 x =
     (let y = x * 10000;
          f = \<lfloor>y\<rfloor>;
          r = y - of_int f
      in of_int (if r < 1 / 2 then f
                 else if 1 / 2 < r then f + 1
                 else if even f then f else f + 1) / 10000)"

text \<open>A value with at most four decimals: a multiple of \<open>1/10000\<close>.\<close>

definition four_decimals :: "rat \<Rightarrow> bool" where
  "four_decimals x \<longleftrightarrow> of_int \<lfloor>x * 10000\<rfloor> = x * 10000"

definition total :: "(page \<times> rat) list \<Rightarrow> rat" where
  "total m = sum_list (map snd m)"

section \<open>transition\_model\<close>

text \<open>
  \<^verbatim>\<open>
  model = {}
  nbOfPages = len(corpus[page])
  if nbOfPages == 0:
      nbOfPages = len(corpus)
      for nextPage in corpus:
          model[nextPage] = 1/len(corpus)
  else:
      model[page] = round((1-damping_factor)/ (nbOfPages +1), 4)
      for nextPage in corpus[page]:
          model[nextPage] = round((1-damping_factor)/ (nbOfPages + 1) + damping_factor * 1/nbOfPages, 4)
  return model
  \<close>
  \<open>len(corpus)\<close> is positive where it divides, since \<open>corpus[page]\<close> succeeded.
\<close>

definition transition_model :: "corpus \<Rightarrow> page \<Rightarrow> rat \<Rightarrow> py_error + (page \<times> rat) list" where
  "transition_model corpus page damping_factor =
     (case lookup corpus page of
        Inl e \<Rightarrow> Inl e
      | Inr links \<Rightarrow>
          (let nbOfPages = length links in
           if nbOfPages = 0 then
             Inr (foldl (\<lambda>model nextPage.
                           AList.update nextPage (1 / of_nat (length corpus)) model)
                    [] (map fst corpus))
           else
             Inr (foldl (\<lambda>model nextPage.
                           AList.update nextPage
                             (py_round4 ((1 - damping_factor) / of_nat (nbOfPages + 1)
                                + damping_factor * 1 / of_nat nbOfPages)) model)
                    (AList.update page
                       (py_round4 ((1 - damping_factor) / of_nat (nbOfPages + 1))) [])
                    links)))"

section \<open>iterate\_pagerank\<close>

text \<open>
  \<^verbatim>\<open>
  def calcPageRank(pageToCalculate, corpus, ranks, damping_factor):
      sumOfRightSide = 0
      for page in corpus:
          if pageToCalculate in corpus[page]:
              sumOfRightSide += round(ranks[page]/len(corpus[page]), 4)
      rank = round((1-damping_factor)/len(corpus), 4) + round(damping_factor * sumOfRightSide, 4)
      return rank
  \<close>
  The loop runs over the entries of the dictionary, each key with its own value.
  \<open>len(corpus[page])\<close> is positive where it divides: the page to calculate is in
  that set.
\<close>

fun sumOfRightSide :: "page \<Rightarrow> ranks \<Rightarrow> corpus \<Rightarrow> rat \<Rightarrow> py_error + rat" where
  "sumOfRightSide pageToCalculate ranks [] acc = Inr acc"
| "sumOfRightSide pageToCalculate ranks ((page, links) # rest) acc =
     (if pageToCalculate \<in> set links then
        (case lookup ranks page of
           Inl e \<Rightarrow> Inl e
         | Inr r \<Rightarrow>
             sumOfRightSide pageToCalculate ranks rest
               (acc + py_round4 (r / of_nat (length links))))
      else sumOfRightSide pageToCalculate ranks rest acc)"

definition calcPageRank :: "page \<Rightarrow> corpus \<Rightarrow> ranks \<Rightarrow> rat \<Rightarrow> py_error + rat" where
  "calcPageRank pageToCalculate corpus ranks damping_factor =
     (case sumOfRightSide pageToCalculate ranks corpus 0 of
        Inl e \<Rightarrow> Inl e
      | Inr s \<Rightarrow>
          if length corpus = 0 then Inl ZeroDivisionError
          else Inr (py_round4 ((1 - damping_factor) / of_nat (length corpus))
                      + py_round4 (damping_factor * s)))"

text \<open>
  \<^verbatim>\<open>
  ranks = {}
  nbOfPages = len(corpus)
  for page in corpus:
      ranks[page] = 1/nbOfPages
  \<close>
\<close>

definition init_ranks :: "corpus \<Rightarrow> ranks" where
  "init_ranks corpus =
     foldl (\<lambda>ranks page. AList.update page (1 / of_nat (length corpus)) ranks)
       [] (map fst corpus)"

text \<open>
  \<^verbatim>\<open>
  for pageToCheck in corpus:
      if(len(corpus[pageToCheck]) == 0):
          allPages = set(corpus.keys())
          corpus[pageToCheck] = allPages
  \<close>
  The assignment writes into the dictionary the caller passed: the function returns the
  dictionary as it leaves it. The keys never change, so they are listed once.
\<close>

fun rewrite_sinks :: "page list \<Rightarrow> corpus \<Rightarrow> py_error + corpus" where
  "rewrite_sinks [] corpus = Inr corpus"
| "rewrite_sinks (pageToCheck # rest) corpus =
     (case lookup corpus pageToCheck of
        Inl e \<Rightarrow> Inl e
      | Inr links \<Rightarrow>
          if length links = 0
          then rewrite_sinks rest (AList.update pageToCheck (map fst corpus) corpus)
          else rewrite_sinks rest corpus)"

text \<open>
  \<^verbatim>\<open>
  for page in ranks:
      ranks[page] = calcPageRank(page,corpus,ranks, damping_factor)
  \<close>
\<close>

fun update_ranks :: "corpus \<Rightarrow> rat \<Rightarrow> page list \<Rightarrow> ranks \<Rightarrow> py_error + ranks" where
  "update_ranks corpus damping_factor [] ranks = Inr ranks"
| "update_ranks corpus damping_factor (page # rest) ranks =
     (case calcPageRank page corpus ranks damping_factor of
        Inl e \<Rightarrow> Inl e
      | Inr v \<Rightarrow> update_ranks corpus damping_factor rest (AList.update page v ranks))"

text \<open>
  \<^verbatim>\<open>
  flag = True
  for page in ranks:
      if(abs(prevRanks[page] - ranks[page]) > 0.001):
          flag = False
          break
  \<close>
\<close>

fun check_flag :: "ranks \<Rightarrow> ranks \<Rightarrow> py_error + bool" where
  "check_flag prevRanks [] = Inr True"
| "check_flag prevRanks ((page, v) # rest) =
     (case lookup prevRanks page of
        Inl e \<Rightarrow> Inl e
      | Inr pv \<Rightarrow>
          if 1 / 1000 < \<bar>pv - v\<bar> then Inr False
          else check_flag prevRanks rest)"

text \<open>
  The \<open>while(True)\<close> loop has no bound: not returning is the value \<open>None\<close>.
\<close>

partial_function (option) iterate_loop :: "corpus \<Rightarrow> rat \<Rightarrow> ranks \<Rightarrow> (py_error + ranks) option" where
  "iterate_loop corpus damping_factor ranks =
     (case update_ranks corpus damping_factor (map fst ranks) ranks of
        Inl e \<Rightarrow> Some (Inl e)
      | Inr ranks' \<Rightarrow>
          (case check_flag ranks ranks' of
             Inl e \<Rightarrow> Some (Inl e)
           | Inr flag \<Rightarrow>
               if flag then Some (Inr ranks')
               else iterate_loop corpus damping_factor ranks'))"

declare iterate_loop.simps [code]

text \<open>
  The result of a call that ends: the caller's dictionary as the call leaves it, and
  what the call returns or raises.
\<close>

definition iterate_pagerank :: "corpus \<Rightarrow> rat \<Rightarrow> (corpus \<times> (py_error + ranks)) option" where
  "iterate_pagerank corpus damping_factor =
     (case rewrite_sinks (map fst corpus) corpus of
        Inl e \<Rightarrow> Some (corpus, Inl e)
      | Inr corpus' \<Rightarrow>
          (case iterate_loop corpus' damping_factor (init_ranks corpus) of
             None \<Rightarrow> None
           | Some res \<Rightarrow> Some (corpus', res)))"

text \<open>
  The graph after the sink rule of the specification: the outbound set of every page
  without links replaced by the full set of pages, every other entry as it was.
\<close>

definition sinks_rewritten :: "corpus \<Rightarrow> corpus" where
  "sinks_rewritten corpus =
     map (\<lambda>(p, links). (p, if links = [] then map fst corpus else links)) corpus"

definition nonneg :: "ranks \<Rightarrow> bool" where
  "nonneg ranks \<longleftrightarrow> list_all (\<lambda>(p, v). 0 \<le> v) ranks"

text \<open>
  The update the specification describes: every page's new rank read from the ranks of
  the round before.
\<close>

fun simultaneous_ranks :: "corpus \<Rightarrow> rat \<Rightarrow> ranks \<Rightarrow> page list \<Rightarrow> py_error + ranks" where
  "simultaneous_ranks corpus damping_factor prevRanks [] = Inr []"
| "simultaneous_ranks corpus damping_factor prevRanks (page # rest) =
     (case calcPageRank page corpus prevRanks damping_factor of
        Inl e \<Rightarrow> Inl e
      | Inr v \<Rightarrow>
          (case simultaneous_ranks corpus damping_factor prevRanks rest of
             Inl e \<Rightarrow> Inl e
           | Inr new \<Rightarrow> Inr ((page, v) # new)))"

section \<open>sample\_pagerank\<close>

definition DAMPING :: rat where
  "DAMPING = 85 / 100"

definition SAMPLES :: rat where
  "SAMPLES = 10000"

text \<open>
  The random source is a parameter: the stream of raw numbers \<open>randrange\<close> reduces
  into its range and the stream of numbers \<open>random()\<close> returns, each consumed from
  the front. \<open>randrange(0)\<close> raises \<open>ValueError\<close>.
\<close>

record random_source =
  ints :: "nat \<Rightarrow> nat"
  floats :: "nat \<Rightarrow> rat"

definition randrange :: "nat \<Rightarrow> random_source \<Rightarrow> py_error + nat \<times> random_source" where
  "randrange n rs =
     (if n = 0 then Inl ValueError
      else Inr (ints rs 0 mod n, rs\<lparr>ints := \<lambda>i. ints rs (Suc i)\<rparr>))"

definition random :: "random_source \<Rightarrow> rat \<times> random_source" where
  "random rs = (floats rs 0, rs\<lparr>floats := \<lambda>i. floats rs (Suc i)\<rparr>)"

text \<open>\<open>ranks[currentPage] += 1\<close>\<close>

definition visit :: "ranks \<Rightarrow> page \<Rightarrow> py_error + ranks" where
  "visit ranks currentPage =
     (case lookup ranks currentPage of
        Inl e \<Rightarrow> Inl e
      | Inr v \<Rightarrow> Inr (AList.update currentPage (v + 1) ranks))"

text \<open>
  \<^verbatim>\<open>
  sum = 0
  for page in currentModel:
      sum += currentModel[page]
      if(randomNb <= sum):
          currentPage = page
          break
  \<close>
\<close>

fun pick :: "(page \<times> rat) list \<Rightarrow> rat \<Rightarrow> rat \<Rightarrow> page \<Rightarrow> page" where
  "pick [] randomNb total_so_far currentPage = currentPage"
| "pick ((page, pr) # rest) randomNb total_so_far currentPage =
     (if randomNb \<le> total_so_far + pr then page
      else pick rest randomNb (total_so_far + pr) currentPage)"

text \<open>The body of \<open>for i in range(n-1)\<close>, run the given number of times.\<close>

fun walk :: "nat \<Rightarrow> corpus \<Rightarrow> rat \<Rightarrow> page \<Rightarrow> ranks \<Rightarrow> random_source \<Rightarrow> py_error + ranks" where
  "walk 0 corpus damping_factor currentPage ranks rs = Inr ranks"
| "walk (Suc i) corpus damping_factor currentPage ranks rs =
     (case transition_model corpus currentPage damping_factor of
        Inl e \<Rightarrow> Inl e
      | Inr currentModel \<Rightarrow>
          (case random rs of
             (randomNb, rs1) \<Rightarrow>
               if 1 - damping_factor \<le> randomNb then
                 (case random rs1 of
                    (randomNb2, rs2) \<Rightarrow>
                      (let currentPage' = pick currentModel randomNb2 0 currentPage in
                       case visit ranks currentPage' of
                         Inl e \<Rightarrow> Inl e
                       | Inr ranks' \<Rightarrow> walk i corpus damping_factor currentPage' ranks' rs2))
               else
                 (case randrange (length corpus) rs1 of
                    Inl e \<Rightarrow> Inl e
                  | Inr (randomIndex, rs2) \<Rightarrow>
                      (let currentPage' = map fst ranks ! randomIndex in
                       case visit ranks currentPage' of
                         Inl e \<Rightarrow> Inl e
                       | Inr ranks' \<Rightarrow> walk i corpus damping_factor currentPage' ranks' rs2))))"

text \<open>
  \<^verbatim>\<open>
  ranks = {}
  for page in corpus:
      ranks[page] = 0
  nbOfPages = len(corpus)
  randomIndex = random.randrange(nbOfPages)
  currentPage = list(ranks.keys())[randomIndex]
  ranks[currentPage] += 1
  for i in range(n-1):
      ...
  for page in ranks:
      ranks[page] /= SAMPLES
  return ranks
  \<close>
  The index \<open>randrange\<close> returns is below the number of keys.
\<close>

definition sample_pagerank :: "corpus \<Rightarrow> rat \<Rightarrow> int \<Rightarrow> random_source \<Rightarrow> py_error + ranks" where
  "sample_pagerank corpus damping_factor n rs =
     (let ranks = foldl (\<lambda>ranks page. AList.update page 0 ranks) [] (map fst corpus);
          nbOfPages = length corpus
      in case randrange nbOfPages rs of
           Inl e \<Rightarrow> Inl e
         | Inr (randomIndex, rs1) \<Rightarrow>
             (let currentPage = map fst ranks ! randomIndex in
              case visit ranks currentPage of
                Inl e \<Rightarrow> Inl e
              | Inr ranks1 \<Rightarrow>
                  (case walk (nat (n - 1)) corpus damping_factor currentPage ranks1 rs1 of
                     Inl e \<Rightarrow> Inl e
                   | Inr ranks2 \<Rightarrow>
                       Inr (map (\<lambda>(page, v). (page, v / SAMPLES)) ranks2))))"

section \<open>Example graphs\<close>

text \<open>A page linking to three sinks.\<close>

definition hub_corpus :: corpus where
  "hub_corpus = [(''A'', [''B'', ''C'', ''D'']), (''B'', []), (''C'', []), (''D'', [])]"

text \<open>A single page without links.\<close>

definition single_corpus :: corpus where
  "single_corpus = [(''A'', [])]"

text \<open>Two pages linking to each other.\<close>

definition pair_corpus :: corpus where
  "pair_corpus = [(''A'', [''B'']), (''B'', [''A''])]"

text \<open>Two pages linking to each other and a third page linking to the first.\<close>

definition feeder_corpus :: corpus where
  "feeder_corpus = [(''A'', [''B'']), (''B'', [''A'']), (''C'', [''A''])]"

text \<open>Four pages, every one with a link, every link inside the graph.\<close>

definition four_corpus :: corpus where
  "four_corpus =
     [(''0'', [''1'', ''2'', ''3'']), (''1'', [''2'', ''3'']),
      (''2'', [''0'', ''1'', ''3'']), (''3'', [''0''])]"

text \<open>A random source whose every draw is 0.\<close>

definition zero_source :: random_source where
  "zero_source = \<lparr>ints = (\<lambda>i. 0), floats = (\<lambda>i. 0)\<rparr>"

section \<open>Dictionaries filled by a loop\<close>

lemma map_of_fill:
  "map_of (foldl (\<lambda>m k. AList.update k v m) m0 ks) q =
     (if q \<in> set ks then Some v else map_of m0 q)"
  by (induction ks arbitrary: m0) (auto simp: update_conv')

lemma keys_fill:
  "fst ` set (foldl (\<lambda>m k. AList.update k v m) m0 ks) = fst ` set m0 \<union> set ks"
  by (induction ks arbitrary: m0) (auto simp: dom_update)

lemma update_fresh: "k \<notin> fst ` set m \<Longrightarrow> AList.update k v m = m @ [(k, v)]"
  by (induction m) auto

lemma fill_fresh:
  "distinct ks \<Longrightarrow> set ks \<inter> fst ` set m0 = {} \<Longrightarrow>
   foldl (\<lambda>m k. AList.update k v m) m0 ks = m0 @ map (\<lambda>k. (k, v)) ks"
proof (induction ks arbitrary: m0)
  case Nil
  then show ?case by simp
next
  case (Cons k ks)
  have fresh: "k \<notin> fst ` set m0" using Cons.prems by auto
  have "set ks \<inter> fst ` set (m0 @ [(k, v)]) = {}" using Cons.prems by auto
  with Cons show ?case by (simp add: update_fresh [OF fresh])
qed

lemma lookup_Inr: "lookup d k = Inr v \<longleftrightarrow> map_of d k = Some v"
  by (simp add: lookup_def split: option.splits)

section \<open>Rounding\<close>

lemma py_round4_error: "\<bar>py_round4 x - x\<bar> \<le> 1 / 20000"
proof -
  define y where "y = x * 10000"
  define f where "f = \<lfloor>y\<rfloor>"
  define r where "r = y - of_int f"
  have r0: "0 \<le> r" and r1: "r < 1"
    unfolding r_def f_def by linarith+
  have x: "x = (of_int f + r) / 10000"
    unfolding r_def y_def by simp
  have "py_round4 x = of_int (if r < 1 / 2 then f
                 else if 1 / 2 < r then f + 1
                 else if even f then f else f + 1) / 10000"
    unfolding py_round4_def Let_def r_def f_def y_def by simp
  then show ?thesis
    using r0 r1 by (auto simp: x abs_if field_simps)
qed

lemma py_round4_grid: "four_decimals (py_round4 x)"
  unfolding four_decimals_def py_round4_def Let_def by simp

lemma total_append: "total (xs @ ys) = total xs + total ys"
  by (simp add: total_def)

lemma total_const: "total (map (\<lambda>k. (k, v)) ks) = of_nat (length ks) * v"
  by (induction ks) (simp_all add: total_def algebra_simps)

lemma transition_sink:
  assumes "map_of corpus page = Some []"
  shows "transition_model corpus page d =
           Inr (foldl (\<lambda>model nextPage. AList.update nextPage (1 / of_nat (length corpus)) model)
                  [] (map fst corpus))"
  using assms by (simp add: transition_model_def lookup_def)

lemma transition_links:
  assumes "map_of corpus page = Some links" "links \<noteq> []"
  shows "transition_model corpus page d =
           Inr (foldl (\<lambda>model nextPage.
                         AList.update nextPage
                           (py_round4 ((1 - d) / of_nat (length links + 1)
                              + d * 1 / of_nat (length links))) model)
                  [(page, py_round4 ((1 - d) / of_nat (length links + 1)))]
                  links)"
  using assms by (simp add: transition_model_def lookup_def Let_def)

lemma hub_links: "map_of hub_corpus ''A'' = Some [''B'', ''C'', ''D'']"
  by (simp add: hub_corpus_def)

lemma hub_transition:
  "transition_model hub_corpus ''A'' DAMPING =
     Inr [(''A'', 3 / 80), (''B'', 401 / 1250), (''C'', 401 / 1250), (''D'', 401 / 1250)]"
  by code_simp

text \<open>
  Claim C10. For a page with at least one outbound link, \<open>transition_model\<close> returns a
  distribution whose keys are exactly the page itself and the pages it links to; any
  other page of the graph is absent from the dictionary (reading it raises
  \<open>KeyError\<close>), not present with probability 0.
\<close>

theorem transition_keys:
  assumes "map_of corpus page = Some links" and "links \<noteq> []"
  shows "\<exists>model. transition_model corpus page d = Inr model
           \<and> fst ` set model = insert page (set links)
           \<and> (\<forall>q. q \<notin> insert page (set links) \<longrightarrow> lookup model q = Inl KeyError)"
proof -
  let ?model = "foldl (\<lambda>model nextPage.
                         AList.update nextPage
                           (py_round4 ((1 - d) / of_nat (length links + 1)
                              + d * 1 / of_nat (length links))) model)
                  [(page, py_round4 ((1 - d) / of_nat (length links + 1)))]
                  links"
  have run: "transition_model corpus page d = Inr ?model"
    by (rule transition_links [OF assms])
  have keys: "fst ` set ?model = insert page (set links)"
    by (simp add: keys_fill)
  have "lookup ?model q = Inl KeyError" if "q \<notin> insert page (set links)" for q
    using that by (simp add: lookup_def map_of_fill)
  with run keys show ?thesis by blast
qed

theorem transition_keys_witness:
  "map_of hub_corpus ''A'' = Some [''B'', ''C'', ''D''] \<and> [''B'', ''C'', ''D''] \<noteq> []
   \<and> (\<exists>model. transition_model hub_corpus ''A'' DAMPING = Inr model
          \<and> fst ` set model = {''A'', ''B'', ''C'', ''D''}
          \<and> lookup model ''E'' = Inl KeyError)"
proof -
  have ne: "[''B'', ''C'', ''D''] \<noteq> []" by simp
  show ?thesis
    using transition_keys [OF hub_links ne, of DAMPING] hub_links
    by (simp add: hub_transition lookup_def)
qed

text \<open>
  Claim C6, as the code computes it. For a page \<open>p\<close> of the graph that does not link
  to itself and damping \<open>d\<close>: if \<open>p\<close> has no outbound link, every page of the graph
  gets probability \<open>1/|pages|\<close>; otherwise, with \<open>k\<close> the number of outbound links,
  \<open>p\<close> gets \<open>(1-d)/(k+1)\<close> rounded to four decimals and every page linked from
  \<open>p\<close> gets one and the same value, \<open>(1-d)/(k+1) + d/k\<close> rounded to four decimals.
  Rounded to four decimals means: a multiple of 0.0001 at most 0.00005 away, which
  leaves open which neighbour a value half-way between two multiples goes to.
\<close>

theorem transition_values:
  assumes "map_of corpus page = Some links" and "page \<notin> set links"
  shows "\<exists>model. transition_model corpus page d = Inr model \<and>
           (if links = [] then
              (\<forall>q \<in> set (map fst corpus). map_of model q = Some (1 / of_nat (length corpus)))
            else
              (\<exists>a b. map_of model page = Some a
                 \<and> (\<forall>q \<in> set links. map_of model q = Some b)
                 \<and> four_decimals a
                 \<and> \<bar>a - (1 - d) / of_nat (length links + 1)\<bar> \<le> 1 / 20000
                 \<and> four_decimals b
                 \<and> \<bar>b - ((1 - d) / of_nat (length links + 1) + d / of_nat (length links))\<bar>
                      \<le> 1 / 20000))"
proof (cases "links = []")
  case True
  with assms have "transition_model corpus page d =
           Inr (foldl (\<lambda>model nextPage. AList.update nextPage (1 / of_nat (length corpus)) model)
                  [] (map fst corpus))"
    by (simp add: transition_sink)
  with True show ?thesis by (simp add: map_of_fill)
next
  case False
  define a where "a = py_round4 ((1 - d) / of_nat (length links + 1))"
  define b where "b = py_round4 ((1 - d) / of_nat (length links + 1) + d * 1 / of_nat (length links))"
  let ?model = "foldl (\<lambda>model nextPage. AList.update nextPage b model) [(page, a)] links"
  have run: "transition_model corpus page d = Inr ?model"
    unfolding a_def b_def by (rule transition_links [OF assms(1) False])
  have pa: "map_of ?model page = Some a"
    using assms(2) by (simp add: map_of_fill)
  have pb: "\<forall>q \<in> set links. map_of ?model q = Some b"
    by (simp add: map_of_fill)
  have ga: "four_decimals a" and gb: "four_decimals b"
    unfolding a_def b_def by (rule py_round4_grid)+
  have ea: "\<bar>a - (1 - d) / of_nat (length links + 1)\<bar> \<le> 1 / 20000"
    unfolding a_def by (rule py_round4_error)
  have "\<bar>b - ((1 - d) / of_nat (length links + 1) + d * 1 / of_nat (length links))\<bar> \<le> 1 / 20000"
    unfolding b_def by (rule py_round4_error)
  then have eb: "\<bar>b - ((1 - d) / of_nat (length links + 1) + d / of_nat (length links))\<bar>
                   \<le> 1 / 20000"
    by simp
  from pa pb ga ea gb eb have
    "\<exists>a b. map_of ?model page = Some a
       \<and> (\<forall>q \<in> set links. map_of ?model q = Some b)
       \<and> four_decimals a
       \<and> \<bar>a - (1 - d) / of_nat (length links + 1)\<bar> \<le> 1 / 20000
       \<and> four_decimals b
       \<and> \<bar>b - ((1 - d) / of_nat (length links + 1) + d / of_nat (length links))\<bar>
            \<le> 1 / 20000"
    by (intro exI conjI)
  with run False show ?thesis
    by (intro exI [of _ ?model]) (simp only: if_False simp_thms)
qed

theorem transition_values_counterexample:
  "transition_model hub_corpus ''A'' DAMPING =
     Inr [(''A'', 3 / 80), (''B'', 401 / 1250), (''C'', 401 / 1250), (''D'', 401 / 1250)]
   \<and> (401 / 1250 :: rat) \<noteq> (1 - DAMPING) / (3 + 1) + DAMPING / 3"
  using hub_transition by (simp add: DAMPING_def)

theorem transition_values_witness:
  "map_of hub_corpus ''A'' = Some [''B'', ''C'', ''D''] \<and> ''A'' \<notin> set [''B'', ''C'', ''D'']
   \<and> (\<exists>model a b. transition_model hub_corpus ''A'' DAMPING = Inr model
          \<and> map_of model ''A'' = Some a \<and> map_of model ''B'' = Some b
          \<and> four_decimals a \<and> \<bar>a - (1 - DAMPING) / 4\<bar> \<le> 1 / 20000
          \<and> four_decimals b \<and> \<bar>b - ((1 - DAMPING) / 4 + DAMPING / 3)\<bar> \<le> 1 / 20000)"
proof -
  have fresh: "''A'' \<notin> set [''B'', ''C'', ''D'']" by simp
  from transition_values [OF hub_links fresh, of DAMPING]
  obtain model a b where run: "transition_model hub_corpus ''A'' DAMPING = Inr model"
    and pa: "map_of model ''A'' = Some a"
    and pb: "\<forall>q \<in> set [''B'', ''C'', ''D'']. map_of model q = Some b"
    and ga: "four_decimals a"
    and ea: "\<bar>a - (1 - DAMPING) / of_nat (length [''B'', ''C'', ''D''] + 1)\<bar> \<le> 1 / 20000"
    and gb: "four_decimals b"
    and eb: "\<bar>b - ((1 - DAMPING) / of_nat (length [''B'', ''C'', ''D''] + 1)
                 + DAMPING / of_nat (length [''B'', ''C'', ''D'']))\<bar> \<le> 1 / 20000"
    by (simp only: list.simps if_False) (elim exE conjE)
  from pb have pb': "map_of model ''B'' = Some b" by simp
  from ea have ea': "\<bar>a - (1 - DAMPING) / 4\<bar> \<le> 1 / 20000" by simp
  from eb have eb': "\<bar>b - ((1 - DAMPING) / 4 + DAMPING / 3)\<bar> \<le> 1 / 20000" by simp
  from run pa pb' ga ea' gb eb' have
    "\<exists>model a b. transition_model hub_corpus ''A'' DAMPING = Inr model
          \<and> map_of model ''A'' = Some a \<and> map_of model ''B'' = Some b
          \<and> four_decimals a \<and> \<bar>a - (1 - DAMPING) / 4\<bar> \<le> 1 / 20000
          \<and> four_decimals b \<and> \<bar>b - ((1 - DAMPING) / 4 + DAMPING / 3)\<bar> \<le> 1 / 20000"
    by (intro exI conjI)
  with hub_links fresh show ?thesis by (intro conjI)
qed

text \<open>
  Claim C5, as the code computes it. For a page \<open>p\<close> of the graph that does not link
  to itself: if \<open>p\<close> has no outbound link the distribution sums to 1; otherwise, with
  \<open>k\<close> outbound links, the \<open>k+1\<close> values are each rounded to four decimals and their
  sum is within \<open>(k+1) * 0.00005\<close> of 1.
\<close>

theorem transition_total:
  assumes "map_of corpus page = Some links"
    and "distinct (map fst corpus)" and "distinct links" and "page \<notin> set links"
  shows "\<exists>model. transition_model corpus page d = Inr model \<and>
           (if links = [] then total model = 1
            else \<bar>total model - 1\<bar> \<le> of_nat (length links + 1) / 20000)"
proof (cases "links = []")
  case True
  from assms(1) have ne: "corpus \<noteq> []" by auto
  define v :: rat where "v = 1 / of_nat (length corpus)"
  have shape: "foldl (\<lambda>model nextPage. AList.update nextPage v model) [] (map fst corpus)
         = [] @ map (\<lambda>k. (k, v)) (map fst corpus)"
    using assms(2) by (intro fill_fresh) auto
  have "total (map (\<lambda>k. (k, v)) (map fst corpus)) = 1"
    using ne by (simp add: total_const v_def del: map_map)
  with shape have "total (foldl (\<lambda>model nextPage. AList.update nextPage v model) []
                     (map fst corpus)) = 1"
    by simp
  then show ?thesis
    using True assms(1) by (simp add: transition_sink v_def)
next
  case False
  define k :: rat where "k = of_nat (length links)"
  define a0 where "a0 = (1 - d) / of_nat (length links + 1)"
  define b0 where "b0 = (1 - d) / of_nat (length links + 1) + d * 1 / of_nat (length links)"
  have kpos: "0 < k" using False by (simp add: k_def)
  have "a0 + k * b0 = (1 - d) / (k + 1) * (k + 1) + k * (d / k)"
    by (simp add: a0_def b0_def k_def distrib_left add.commute)
  also have "\<dots> = (1 - d) + d"
    using kpos by simp
  finally have exact: "a0 + k * b0 = 1" by simp
  have shape: "foldl (\<lambda>model nextPage. AList.update nextPage (py_round4 b0) model)
                  [(page, py_round4 a0)] links
         = [(page, py_round4 a0)] @ map (\<lambda>q. (q, py_round4 b0)) links"
    using assms(3,4) by (intro fill_fresh) auto
  have "transition_model corpus page d =
      Inr (foldl (\<lambda>model nextPage. AList.update nextPage (py_round4 b0) model)
                  [(page, py_round4 a0)] links)"
    unfolding a0_def b0_def by (rule transition_links [OF assms(1) False])
  then have run: "transition_model corpus page d =
      Inr ([(page, py_round4 a0)] @ map (\<lambda>q. (q, py_round4 b0)) links)"
    by (simp only: shape)
  have tot: "total ([(page, py_round4 a0)] @ map (\<lambda>q. (q, py_round4 b0)) links)
               = py_round4 a0 + k * py_round4 b0"
  proof -
    have "total [(page, py_round4 a0)] = py_round4 a0" by (simp add: total_def)
    then show ?thesis by (simp only: total_append total_const k_def)
  qed
  have ea: "\<bar>py_round4 a0 - a0\<bar> \<le> 1 / 20000" by (rule py_round4_error)
  have eb: "\<bar>py_round4 b0 - b0\<bar> \<le> 1 / 20000" by (rule py_round4_error)
  have "k * \<bar>py_round4 b0 - b0\<bar> \<le> k * (1 / 20000)"
    using eb kpos by (intro mult_left_mono) auto
  then have ekb: "\<bar>k * py_round4 b0 - k * b0\<bar> \<le> k / 20000"
    using kpos by (simp add: abs_mult right_diff_distrib [symmetric])
  have "py_round4 a0 + k * py_round4 b0 - 1
          = (py_round4 a0 - a0) + (k * py_round4 b0 - k * b0)"
    using exact by simp
  then have "\<bar>py_round4 a0 + k * py_round4 b0 - 1\<bar> \<le> 1 / 20000 + k / 20000"
    using ea ekb by linarith
  then have "\<bar>py_round4 a0 + k * py_round4 b0 - 1\<bar> \<le> of_nat (length links + 1) / 20000"
    by (simp add: k_def add_divide_distrib add.commute)
  with run tot False show ?thesis by simp
qed

theorem transition_total_counterexample:
  "(case transition_model hub_corpus ''A'' DAMPING of
      Inl e \<Rightarrow> False
    | Inr model \<Rightarrow> total model = 9999 / 10000 \<and> 1 / 1000000 < \<bar>total model - 1\<bar>)"
  by (simp add: hub_transition total_def)

theorem transition_total_witness:
  "map_of hub_corpus ''A'' = Some [''B'', ''C'', ''D''] \<and> distinct (map fst hub_corpus)
   \<and> distinct [''B'', ''C'', ''D''] \<and> ''A'' \<notin> set [''B'', ''C'', ''D'']
   \<and> (\<exists>model. transition_model hub_corpus ''A'' DAMPING = Inr model
          \<and> \<bar>total model - 1\<bar> \<le> 4 / 20000)"
proof -
  have d: "distinct (map fst hub_corpus)" by (simp add: hub_corpus_def)
  from transition_total [OF hub_links d, of DAMPING] hub_links d
  show ?thesis by auto
qed

section \<open>The iteration never raises\<close>

lemma four_decimals_nonneg:
  assumes "four_decimals g" and "\<bar>g - x\<bar> \<le> 1 / 20000" and "0 \<le> x"
  shows "0 \<le> g"
proof -
  define z where "z = \<lfloor>g * 10000\<rfloor>"
  from assms(1) have "of_int z = g * 10000"
    unfolding four_decimals_def z_def .
  then have g: "g = of_int z / 10000" by simp
  from assms(2,3) have "- (1 / 20000) \<le> g" by linarith
  then have "- (1 / 2) \<le> (of_int z :: rat)" by (simp add: g)
  then have "(-1 :: rat) < of_int z" by linarith
  then have "-1 < z" by (metis of_int_less_iff of_int_minus of_int_1)
  then have "0 \<le> z" by simp
  then show ?thesis by (simp add: g)
qed

lemma py_round4_nonneg: "0 \<le> x \<Longrightarrow> 0 \<le> py_round4 x"
  by (rule four_decimals_nonneg [OF py_round4_grid py_round4_error])

lemma map_of_middle:
  "p \<notin> fst ` set pre \<Longrightarrow> map_of (pre @ (p, v) # post) p = Some v"
  by (induction pre) auto

lemma update_middle:
  "p \<notin> fst ` set pre \<Longrightarrow> AList.update p w (pre @ (p, v) # post) = pre @ (p, w) # post"
  by (induction pre) auto

lemma rewrite_sinks_split:
  "distinct (map fst (pre @ post)) \<Longrightarrow>
   rewrite_sinks (map fst post) (pre @ post) =
     Inr (pre @ map (\<lambda>(p, links). (p, if links = [] then map fst (pre @ post) else links)) post)"
proof (induction post arbitrary: pre)
  case Nil
  then show ?case by simp
next
  case (Cons e post)
  obtain p links where e: "e = (p, links)" by (cases e)
  from Cons.prems have fresh: "p \<notin> fst ` set pre" by (auto simp: e)
  have look: "lookup (pre @ (p, links) # post) p = Inr links"
    unfolding lookup_def map_of_middle [OF fresh] by simp
  show ?case
  proof (cases "links = []")
    case True
    let ?K = "map fst (pre @ (p, links) # post)"
    have d: "distinct (map fst ((pre @ [(p, ?K)]) @ post))"
      using Cons.prems by (simp add: e)
    have k: "map fst ((pre @ [(p, ?K)]) @ post) = ?K" by simp
    from Cons.IH [OF d] show ?thesis
      unfolding k using True look
      by (simp add: e update_middle [OF fresh] cong: if_cong)
  next
    case False
    have d: "distinct (map fst ((pre @ [(p, links)]) @ post))"
      using Cons.prems by (simp add: e)
    from Cons.IH [OF d] show ?thesis
      using False look by (simp add: e cong: if_cong)
  qed
qed

lemma rewrite_sinks_eq:
  "distinct (map fst corpus) \<Longrightarrow>
   rewrite_sinks (map fst corpus) corpus = Inr (sinks_rewritten corpus)"
  using rewrite_sinks_split [of "[]" corpus] unfolding append_Nil sinks_rewritten_def .

lemma keys_sinks_rewritten: "map fst (sinks_rewritten corpus) = map fst corpus"
  by (simp add: sinks_rewritten_def case_prod_unfold comp_def)

lemma sinks_rewritten_idem: "sinks_rewritten (sinks_rewritten corpus) = sinks_rewritten corpus"
proof -
  have "sinks_rewritten (sinks_rewritten corpus) =
          map (\<lambda>(p, links). (p, if links = [] then map fst corpus else links))
            (sinks_rewritten corpus)"
    unfolding sinks_rewritten_def [of "sinks_rewritten corpus"] keys_sinks_rewritten ..
  also have "\<dots> = sinks_rewritten corpus"
    by (auto simp: sinks_rewritten_def)
  finally show ?thesis .
qed

lemma init_ranks_eq:
  "distinct (map fst corpus) \<Longrightarrow>
   init_ranks corpus = map (\<lambda>p. (p, 1 / of_nat (length corpus))) (map fst corpus)"
  unfolding init_ranks_def by (subst fill_fresh) auto

lemma keys_init_ranks:
  "distinct (map fst corpus) \<Longrightarrow> map fst (init_ranks corpus) = map fst corpus"
  by (simp add: init_ranks_eq comp_def)

lemma init_ranks_cong:
  "map fst c1 = map fst c2 \<Longrightarrow> init_ranks c1 = init_ranks c2"
proof -
  assume k: "map fst c1 = map fst c2"
  then have "length (map fst c1) = length (map fst c2)" by simp
  then have "length c1 = length c2" by simp
  with k show ?thesis by (simp add: init_ranks_def)
qed


lemma nonneg_lookup: "nonneg ranks \<Longrightarrow> lookup ranks p = Inr r \<Longrightarrow> 0 \<le> r"
  by (auto simp: nonneg_def lookup_Inr list_all_iff dest!: map_of_SomeD)

lemma nonneg_update: "nonneg ranks \<Longrightarrow> 0 \<le> v \<Longrightarrow> nonneg (AList.update p v ranks)"
  by (induction ranks) (auto simp: nonneg_def)

lemma lookup_key: "p \<in> fst ` set d \<Longrightarrow> \<exists>v. lookup d p = Inr v"
  by (cases "map_of d p") (auto simp: lookup_def map_of_eq_None_iff)

lemma sumOfRightSide_ok:
  "fst ` set rest \<subseteq> fst ` set ranks \<Longrightarrow>
   \<exists>s. sumOfRightSide q ranks rest acc = Inr s \<and> (nonneg ranks \<longrightarrow> 0 \<le> acc \<longrightarrow> 0 \<le> s)"
proof (induction rest arbitrary: acc)
  case Nil
  then show ?case by simp
next
  case (Cons e rest)
  obtain page links where e: "e = (page, links)" by (cases e)
  from Cons.prems have sub: "fst ` set rest \<subseteq> fst ` set ranks"
    and key: "page \<in> fst ` set ranks" by (auto simp: e)
  from lookup_key [OF key] obtain r where r: "lookup ranks page = Inr r" ..
  show ?case
  proof (cases "q \<in> set links")
    case True
    from Cons.IH [OF sub, of "acc + py_round4 (r / of_nat (length links))"]
    obtain s where s: "sumOfRightSide q ranks rest (acc + py_round4 (r / of_nat (length links))) = Inr s"
      and pos: "nonneg ranks \<longrightarrow> 0 \<le> acc + py_round4 (r / of_nat (length links)) \<longrightarrow> 0 \<le> s"
      by blast
    have "0 \<le> s" if nn: "nonneg ranks" and acc: "0 \<le> acc"
    proof -
      from nonneg_lookup [OF nn r] have "0 \<le> r / of_nat (length links)" by simp
      then have "0 \<le> py_round4 (r / of_nat (length links))" by (rule py_round4_nonneg)
      with acc pos nn show ?thesis by simp
    qed
    with s True r show ?thesis by (simp add: e)
  next
    case False
    with Cons.IH [OF sub, of acc] show ?thesis by (simp add: e)
  qed
qed

lemma calcPageRank_ok:
  assumes "fst ` set corpus \<subseteq> fst ` set ranks" and "corpus \<noteq> []"
  shows "\<exists>v. calcPageRank q corpus ranks d = Inr v
           \<and> (nonneg ranks \<longrightarrow> 0 \<le> d \<longrightarrow> d \<le> 1 \<longrightarrow> 0 \<le> v)"
proof -
  from sumOfRightSide_ok [OF assms(1), of q 0]
  obtain s where s: "sumOfRightSide q ranks corpus 0 = Inr s"
    and pos: "nonneg ranks \<longrightarrow> 0 \<le> s" by auto
  let ?v = "py_round4 ((1 - d) / of_nat (length corpus)) + py_round4 (d * s)"
  have run: "calcPageRank q corpus ranks d = Inr ?v"
    using s assms(2) by (simp add: calcPageRank_def)
  have "0 \<le> ?v" if "nonneg ranks" "0 \<le> d" "d \<le> 1"
  proof -
    from that pos have "0 \<le> d * s" by simp
    then have a: "0 \<le> py_round4 (d * s)" by (rule py_round4_nonneg)
    from that have "0 \<le> (1 - d) / of_nat (length corpus)" by simp
    then have "0 \<le> py_round4 ((1 - d) / of_nat (length corpus))" by (rule py_round4_nonneg)
    with a show ?thesis by simp
  qed
  with run show ?thesis by blast
qed

lemma update_ranks_ok:
  assumes "map fst ranks = map fst corpus" and "set ps \<subseteq> set (map fst corpus)"
  shows "\<exists>new. update_ranks corpus d ps ranks = Inr new \<and> map fst new = map fst corpus
           \<and> (nonneg ranks \<longrightarrow> 0 \<le> d \<longrightarrow> d \<le> 1 \<longrightarrow> nonneg new)"
  using assms
proof (induction ps arbitrary: ranks)
  case Nil
  then show ?case by simp
next
  case (Cons p ps)
  from Cons.prems have pk: "p \<in> set (map fst corpus)" and sub: "set ps \<subseteq> set (map fst corpus)"
    by auto
  from pk have ne: "corpus \<noteq> []" by auto
  have keys: "fst ` set corpus \<subseteq> fst ` set ranks"
    using Cons.prems(1) by (metis set_map subset_refl)
  from calcPageRank_ok [OF keys ne, of p d]
  obtain v where v: "calcPageRank p corpus ranks d = Inr v"
    and vpos: "nonneg ranks \<longrightarrow> 0 \<le> d \<longrightarrow> d \<le> 1 \<longrightarrow> 0 \<le> v" by blast
  have k': "map fst (AList.update p v ranks) = map fst corpus"
    using pk Cons.prems(1) by (simp add: update_keys)
  from Cons.IH [OF k' sub]
  obtain new where new: "update_ranks corpus d ps (AList.update p v ranks) = Inr new"
    and kn: "map fst new = map fst corpus"
    and nn: "nonneg (AList.update p v ranks) \<longrightarrow> 0 \<le> d \<longrightarrow> d \<le> 1 \<longrightarrow> nonneg new"
    by blast
  have "nonneg new" if "nonneg ranks" "0 \<le> d" "d \<le> 1"
    using that nn vpos nonneg_update by blast
  with new kn v show ?case by simp
qed

lemma check_flag_ok:
  "fst ` set new \<subseteq> fst ` set prev \<Longrightarrow> \<exists>b. check_flag prev new = Inr b"
proof (induction new)
  case Nil
  show ?case by (rule exI [of _ True]) simp
next
  case (Cons e new)
  obtain page v where e: "e = (page, v)" by (cases e)
  from Cons.prems have "page \<in> fst ` set prev" by (auto simp: e)
  from lookup_key [OF this] obtain pv where pv: "lookup prev page = Inr pv" ..
  from Cons.prems have "fst ` set new \<subseteq> fst ` set prev" by auto
  from Cons.IH [OF this] obtain b where b: "check_flag prev new = Inr b" ..
  show ?case
  proof (cases "1 / 1000 < \<bar>pv - v\<bar>")
    case True
    with pv have "check_flag prev (e # new) = Inr False" by (simp add: e)
    then show ?thesis ..
  next
    case False
    with pv b have "check_flag prev (e # new) = Inr b" by (simp add: e)
    then show ?thesis ..
  qed
qed

lemma iterate_loop_ok:
  assumes "iterate_loop corpus d ranks = Some res" and "map fst ranks = map fst corpus"
  shows "\<exists>r. res = Inr r \<and> map fst r = map fst corpus
           \<and> (nonneg ranks \<longrightarrow> 0 \<le> d \<longrightarrow> d \<le> 1 \<longrightarrow> nonneg r)"
proof -
  let ?P = "\<lambda>corpus d ranks res. map fst ranks = map fst corpus \<longrightarrow>
              (\<exists>r. res = Inr r \<and> map fst r = map fst corpus
                 \<and> (nonneg ranks \<longrightarrow> 0 \<le> d \<longrightarrow> d \<le> 1 \<longrightarrow> nonneg r))"
  have "?P corpus d ranks res"
  proof (rule iterate_loop.raw_induct [where P = ?P, OF _ assms(1)])
    fix loop corpus d ranks res
    assume IH: "\<And>c d ranks res. loop c d ranks = Some res \<Longrightarrow> ?P c d ranks res"
      and body: "(case update_ranks corpus d (map fst ranks) ranks of
                    Inl e \<Rightarrow> Some (Inl e)
                  | Inr ranks' \<Rightarrow>
                      (case check_flag ranks ranks' of
                         Inl e \<Rightarrow> Some (Inl e)
                       | Inr flag \<Rightarrow>
                           if flag then Some (Inr ranks') else loop corpus d ranks')) = Some res"
    show "?P corpus d ranks res"
    proof
      assume keys: "map fst ranks = map fst corpus"
      have sub: "set (map fst ranks) \<subseteq> set (map fst corpus)" using keys by simp
      from update_ranks_ok [OF keys sub, of d]
      obtain new where new: "update_ranks corpus d (map fst ranks) ranks = Inr new"
        and kn: "map fst new = map fst corpus"
        and nn: "nonneg ranks \<longrightarrow> 0 \<le> d \<longrightarrow> d \<le> 1 \<longrightarrow> nonneg new"
        by blast
      have "fst ` set new \<subseteq> fst ` set ranks"
        using kn keys by (metis set_map subset_refl)
      from check_flag_ok [OF this] obtain b where b: "check_flag ranks new = Inr b" ..
      show "\<exists>r. res = Inr r \<and> map fst r = map fst corpus
                \<and> (nonneg ranks \<longrightarrow> 0 \<le> d \<longrightarrow> d \<le> 1 \<longrightarrow> nonneg r)"
      proof (cases b)
        case True
        with body new b have "res = Inr new" by simp
        with kn nn show ?thesis by blast
      next
        case False
        with body new b have "loop corpus d new = Some res" by simp
        from IH [OF this] kn nn show ?thesis by blast
      qed
    qed
  qed
  with assms(2) show ?thesis by blast
qed

section \<open>What a call of iterate\_pagerank leaves and returns\<close>

lemma iterate_pagerank_eq:
  assumes "distinct (map fst corpus)"
  shows "iterate_pagerank corpus d =
           (case iterate_loop (sinks_rewritten corpus) d (init_ranks corpus) of
              None \<Rightarrow> None
            | Some res \<Rightarrow> Some (sinks_rewritten corpus, res))"
  by (simp add: iterate_pagerank_def rewrite_sinks_eq [OF assms])

lemma nonneg_init_ranks: "distinct (map fst corpus) \<Longrightarrow> nonneg (init_ranks corpus)"
  by (simp add: init_ranks_eq nonneg_def list_all_iff)

text \<open>
  Claim C1, as the code behaves. \<open>iterate_pagerank\<close> assigns into the dictionary it
  was given: when the call returns, the caller's graph has the outbound set of every
  sink replaced by the full set of pages and every other entry unchanged. It is the
  caller's graph that is rewritten, not a copy.
\<close>

theorem iterate_rank_rewrites_sinks:
  assumes "distinct (map fst corpus)"
    and "iterate_pagerank corpus d = Some (corpus', res)"
  shows "corpus' = sinks_rewritten corpus"
  using assms(2) unfolding iterate_pagerank_eq [OF assms(1)]
  by (simp split: option.splits)

lemma single_run:
  "iterate_pagerank single_corpus DAMPING = Some ([(''A'', [''A''])], Inr [(''A'', 1)])"
  by code_simp

theorem iterate_rank_rewrites_sinks_counterexample:
  "iterate_pagerank single_corpus DAMPING = Some ([(''A'', [''A''])], Inr [(''A'', 1)])
   \<and> [(''A'', [''A''])] \<noteq> single_corpus"
  using single_run by (simp add: single_corpus_def)

theorem iterate_rank_rewrites_sinks_witness:
  "distinct (map fst single_corpus)
   \<and> iterate_pagerank single_corpus DAMPING = Some ([(''A'', [''A''])], Inr [(''A'', 1)])
   \<and> [(''A'', [''A''])] = sinks_rewritten single_corpus"
proof -
  have d: "distinct (map fst single_corpus)" by (simp add: single_corpus_def)
  from iterate_rank_rewrites_sinks [OF d single_run] d single_run
  show ?thesis by simp
qed

text \<open>
  What every returning call delivers. For a graph with distinct keys and damping between
  0 and 1, whenever \<open>iterate_pagerank\<close> returns it returns a rank assignment (it does
  not raise) with exactly the pages of the graph as keys, in the graph's order, and
  every value is at least 0.
\<close>

theorem iterate_rank_output:
  assumes "distinct (map fst corpus)" and "0 \<le> d" and "d \<le> 1"
    and "iterate_pagerank corpus d = Some (corpus', res)"
  shows "\<exists>ranks. res = Inr ranks \<and> map fst ranks = map fst corpus
           \<and> list_all (\<lambda>(p, v). 0 \<le> v) ranks"
proof -
  from assms(4) have loop: "iterate_loop (sinks_rewritten corpus) d (init_ranks corpus) = Some res"
    unfolding iterate_pagerank_eq [OF assms(1)] by (simp split: option.splits)
  have keys: "map fst (init_ranks corpus) = map fst (sinks_rewritten corpus)"
    by (simp only: keys_init_ranks [OF assms(1)] keys_sinks_rewritten)
  from iterate_loop_ok [OF loop keys] nonneg_init_ranks [OF assms(1)] assms(2,3)
  show ?thesis by (auto simp: keys_sinks_rewritten nonneg_def)
qed

lemma four_run:
  "iterate_pagerank four_corpus DAMPING =
     Some (four_corpus,
           Inr [(''0'', 1647 / 5000), (''1'', 191 / 1000), (''2'', 53 / 250), (''3'', 2721 / 10000)])"
  by code_simp

theorem iterate_rank_output_witness:
  "distinct (map fst four_corpus) \<and> 0 \<le> DAMPING \<and> DAMPING \<le> 1
   \<and> (\<exists>c r. iterate_pagerank four_corpus DAMPING = Some (c, Inr r)
          \<and> map fst r = map fst four_corpus \<and> list_all (\<lambda>(p, v). 0 \<le> v) r)"
proof -
  have d: "distinct (map fst four_corpus)" by (simp add: four_corpus_def)
  have lo: "0 \<le> DAMPING" and hi: "DAMPING \<le> 1" by (simp_all add: DAMPING_def)
  from iterate_rank_output [OF d lo hi four_run] four_run d lo hi
  show ?thesis by simp
qed

text \<open>
  Claim C7 at a four-page graph. Every page of \<open>four_corpus\<close> has a link, every link
  stays inside the graph and no page links to itself; the damping factor is 0.85. The
  call returns after three rounds with the ranks 0.3294, 0.191, 0.212 and 0.2721, whose
  sum is 1.0045: further from 1 than 0.001.
\<close>

theorem iterate_rank_sum_off:
  "iterate_pagerank four_corpus DAMPING =
     Some (four_corpus,
           Inr [(''0'', 1647 / 5000), (''1'', 191 / 1000), (''2'', 53 / 250), (''3'', 2721 / 10000)])
   \<and> total [(''0'', 1647 / 5000), (''1'', 191 / 1000), (''2'', 53 / 250), (''3'', 2721 / 10000)]
        = 10045 / 10000
   \<and> crawled four_corpus \<and> 0 < DAMPING \<and> DAMPING < 1"
  using four_run by (simp add: total_def crawled_def wf_corpus_def four_corpus_def DAMPING_def)

text \<open>
  Claim C8. When a call of \<open>iterate_pagerank\<close> returns, a second call with the same
  damping on the graph as the first call left it (sinks rewritten) returns the same rank
  assignment and leaves the graph as it is.
\<close>

theorem iterate_rank_twice:
  assumes "distinct (map fst corpus)"
    and "iterate_pagerank corpus d = Some (corpus', res)"
  shows "iterate_pagerank corpus' d = Some (corpus', res)"
proof -
  from assms(2) have loop: "iterate_loop (sinks_rewritten corpus) d (init_ranks corpus) = Some res"
    and c': "corpus' = sinks_rewritten corpus"
    unfolding iterate_pagerank_eq [OF assms(1)] by (simp_all split: option.splits)
  have d': "distinct (map fst corpus')"
    using assms(1) by (simp only: c' keys_sinks_rewritten)
  have i: "init_ranks corpus' = init_ranks corpus"
    by (rule init_ranks_cong) (simp only: c' keys_sinks_rewritten)
  show ?thesis
    unfolding iterate_pagerank_eq [OF d'] i
    by (simp add: c' sinks_rewritten_idem loop)
qed

theorem iterate_rank_twice_witness:
  "distinct (map fst single_corpus)
   \<and> iterate_pagerank single_corpus DAMPING = Some ([(''A'', [''A''])], Inr [(''A'', 1)])
   \<and> iterate_pagerank [(''A'', [''A''])] DAMPING = Some ([(''A'', [''A''])], Inr [(''A'', 1)])"
proof -
  have d: "distinct (map fst single_corpus)" by (simp add: single_corpus_def)
  from iterate_rank_twice [OF d single_run] d single_run
  show ?thesis by simp
qed

text \<open>
  Claim C9. On the graph \<open>{A: {B}, B: {A}}\<close> with damping 0.85 the iteration stops
  (after one round) and returns rank 0.5 for A and 0.5 for B.
\<close>

theorem iterate_rank_two_cycle:
  "iterate_pagerank pair_corpus DAMPING =
     Some (pair_corpus, Inr [(''A'', 1 / 2), (''B'', 1 / 2)])"
  by code_simp

section \<open>One round of the iteration\<close>

lemma update_ranks_split:
  "distinct (map fst (pre @ post)) \<Longrightarrow>
   update_ranks corpus d (map fst post) (pre @ post) = Inr new \<Longrightarrow>
   \<exists>post'. new = pre @ post' \<and> map fst post' = map fst post
      \<and> (\<forall>i < length post.
            calcPageRank (fst (post ! i)) corpus (pre @ take i post' @ drop i post) d
              = Inr (snd (post' ! i)))"
proof (induction post arbitrary: pre)
  case Nil
  then show ?case by simp
next
  case (Cons e post)
  obtain p v0 where e: "e = (p, v0)" by (cases e)
  from Cons.prems(1) have fresh: "p \<notin> fst ` set pre" by (auto simp: e)
  from Cons.prems(2) obtain v where v: "calcPageRank p corpus (pre @ (p, v0) # post) d = Inr v"
    and rest: "update_ranks corpus d (map fst post) (AList.update p v (pre @ (p, v0) # post)) = Inr new"
    by (auto simp: e split: sum.splits)
  have d': "distinct (map fst ((pre @ [(p, v)]) @ post))"
    using Cons.prems(1) by (simp add: e)
  have rest': "update_ranks corpus d (map fst post) ((pre @ [(p, v)]) @ post) = Inr new"
    using rest by (simp add: update_middle [OF fresh])
  from Cons.IH [OF d' rest']
  obtain post' where new: "new = (pre @ [(p, v)]) @ post'"
    and keys: "map fst post' = map fst post"
    and calc: "\<forall>i < length post.
            calcPageRank (fst (post ! i)) corpus ((pre @ [(p, v)]) @ take i post' @ drop i post) d
              = Inr (snd (post' ! i))"
    by blast
  have "calcPageRank (fst ((e # post) ! i)) corpus
          (pre @ take i ((p, v) # post') @ drop i (e # post)) d
            = Inr (snd (((p, v) # post') ! i))" if "i < length (e # post)" for i
  proof (cases i)
    case 0
    with v show ?thesis by (simp add: e)
  next
    case (Suc j)
    with that have "j < length post" by simp
    with calc Suc show ?thesis by simp
  qed
  with new keys show ?case
    by (intro exI [of _ "(p, v) # post'"]) (simp add: e)
qed

text \<open>
  Claim C3, as the code behaves. One round of \<open>iterate_pagerank\<close> updates the rank
  dictionary in place, page after page in key order: the new rank of the page at
  position \<open>i\<close> is computed from an assignment in which the pages before position
  \<open>i\<close> already hold the values of this round and the pages from position \<open>i\<close> on
  still hold the values of the round before. The copy \<open>prevRanks\<close> is read by the
  convergence test only.
\<close>

theorem in_place_round:
  assumes "distinct (map fst ranks)"
    and "update_ranks corpus d (map fst ranks) ranks = Inr new"
  shows "map fst new = map fst ranks
         \<and> (\<forall>i < length ranks.
               calcPageRank (fst (ranks ! i)) corpus (take i new @ drop i ranks) d
                 = Inr (snd (new ! i)))"
  using update_ranks_split [of "[]" ranks corpus d new] assms by auto

lemma feeder_round:
  "update_ranks feeder_corpus DAMPING [''A'', ''B'', ''C'']
     [(''A'', 1 / 3), (''B'', 1 / 3), (''C'', 1 / 3)]
     = Inr [(''A'', 6166 / 10000), (''B'', 5741 / 10000), (''C'', 500 / 10000)]"
  by code_simp

theorem in_place_round_counterexample:
  "init_ranks feeder_corpus = [(''A'', 1 / 3), (''B'', 1 / 3), (''C'', 1 / 3)]
   \<and> update_ranks feeder_corpus DAMPING [''A'', ''B'', ''C'']
        [(''A'', 1 / 3), (''B'', 1 / 3), (''C'', 1 / 3)]
        = Inr [(''A'', 6166 / 10000), (''B'', 5741 / 10000), (''C'', 500 / 10000)]
   \<and> simultaneous_ranks feeder_corpus DAMPING
        [(''A'', 1 / 3), (''B'', 1 / 3), (''C'', 1 / 3)] [''A'', ''B'', ''C'']
        = Inr [(''A'', 6166 / 10000), (''B'', 3333 / 10000), (''C'', 500 / 10000)]
   \<and> (5741 / 10000 :: rat) \<noteq> 3333 / 10000"
  by code_simp

theorem in_place_round_witness:
  "distinct (map fst [(''A'', 1 / 3 :: rat), (''B'', 1 / 3), (''C'', 1 / 3)])
   \<and> update_ranks feeder_corpus DAMPING [''A'', ''B'', ''C'']
        [(''A'', 1 / 3), (''B'', 1 / 3), (''C'', 1 / 3)]
        = Inr [(''A'', 6166 / 10000), (''B'', 5741 / 10000), (''C'', 500 / 10000)]
   \<and> calcPageRank ''B'' feeder_corpus [(''A'', 6166 / 10000), (''B'', 1 / 3), (''C'', 1 / 3)] DAMPING
        = Inr (5741 / 10000)"
proof -
  let ?r = "[(''A'', 1 / 3 :: rat), (''B'', 1 / 3), (''C'', 1 / 3)]"
  have d: "distinct (map fst ?r)" by simp
  have run: "update_ranks feeder_corpus DAMPING (map fst ?r) ?r
     = Inr [(''A'', 6166 / 10000), (''B'', 5741 / 10000), (''C'', 500 / 10000)]"
    using feeder_round by simp
  from in_place_round [OF d run]
  have "\<forall>i < length ?r. calcPageRank (fst (?r ! i)) feeder_corpus
           (take i [(''A'', 6166 / 10000), (''B'', 5741 / 10000), (''C'', 500 / 10000)] @ drop i ?r) DAMPING
          = Inr (snd ([(''A'', 6166 / 10000), (''B'', 5741 / 10000), (''C'', 500 / 10000 :: rat)] ! i))"
    by (rule conjunct2)
  then have "(1::nat) < length ?r \<longrightarrow> calcPageRank (fst (?r ! 1)) feeder_corpus
           (take 1 [(''A'', 6166 / 10000), (''B'', 5741 / 10000), (''C'', 500 / 10000)] @ drop 1 ?r) DAMPING
          = Inr (snd ([(''A'', 6166 / 10000), (''B'', 5741 / 10000), (''C'', 500 / 10000 :: rat)] ! 1))"
    by (rule spec)
  then have "calcPageRank ''B'' feeder_corpus [(''A'', 6166 / 10000), (''B'', 1 / 3), (''C'', 1 / 3)] DAMPING
        = Inr (5741 / 10000)"
    by simp
  with d feeder_round show ?thesis by simp
qed

section \<open>Sampling and the failures of the three functions\<close>

lemma visit_ok:
  "p \<in> set (map fst ranks) \<Longrightarrow>
   \<exists>ranks'. visit ranks p = Inr ranks' \<and> map fst ranks' = map fst ranks
      \<and> total ranks' = total ranks + 1"
proof (induction ranks)
  case Nil
  then show ?case by simp
next
  case (Cons e ranks)
  obtain q v where e: "e = (q, v)" by (cases e)
  show ?case
  proof (cases "q = p")
    case True
    then show ?thesis by (simp add: e visit_def lookup_def total_def)
  next
    case False
    with Cons.prems have "p \<in> set (map fst ranks)" by (auto simp: e)
    from Cons.IH [OF this] obtain ranks' where "visit ranks p = Inr ranks'"
      and "map fst ranks' = map fst ranks" and "total ranks' = total ranks + 1" by blast
    with False show ?thesis
      by (auto simp: e visit_def lookup_def total_def split: option.splits)
  qed
qed

lemma pick_in: "pick m r s cur \<in> insert cur (fst ` set m)"
  by (induction m r s cur rule: pick.induct) auto

lemma crawled_links:
  assumes "crawled corpus" and "map_of corpus page = Some links"
  shows "set links \<subseteq> set (map fst corpus)"
proof -
  from assms(2) have "(page, links) \<in> set corpus" by (rule map_of_SomeD)
  with assms(1) show ?thesis
    by (auto simp: crawled_def list_all_iff)
qed

lemma transition_ok:
  assumes "crawled corpus" and "page \<in> set (map fst corpus)"
  shows "\<exists>m. transition_model corpus page d = Inr m \<and> fst ` set m \<subseteq> set (map fst corpus)"
proof -
  from assms(2) obtain links where links: "map_of corpus page = Some links"
    by (cases "map_of corpus page") (auto simp: map_of_eq_None_iff)
  show ?thesis
  proof (cases "links = []")
    case True
    with links show ?thesis by (simp add: transition_sink keys_fill)
  next
    case False
    from transition_links [OF links False, of d] crawled_links [OF assms(1) links] assms(2)
    show ?thesis by (simp add: keys_fill)
  qed
qed

lemma walk_ok:
  assumes "crawled corpus"
  shows "map fst ranks = map fst corpus \<Longrightarrow> cur \<in> set (map fst corpus) \<Longrightarrow>
         \<exists>r. walk i corpus d cur ranks rs = Inr r \<and> map fst r = map fst corpus
            \<and> total r = total ranks + of_nat i"
proof (induction i arbitrary: cur ranks rs)
  case 0
  then show ?case by simp
next
  case (Suc i)
  from transition_ok [OF assms Suc.prems(2), of d]
  obtain m where m: "transition_model corpus cur d = Inr m"
    and mk: "fst ` set m \<subseteq> set (map fst corpus)" by blast
  obtain x rs1 where r1: "random rs = (x, rs1)" by (cases "random rs")
  have step: "\<exists>r. (case visit ranks nxt of
                     Inl e \<Rightarrow> Inl e
                   | Inr ranks' \<Rightarrow> walk i corpus d nxt ranks' rs2) = Inr r
                \<and> map fst r = map fst corpus \<and> total r = total ranks + of_nat (Suc i)"
    if nxt: "nxt \<in> set (map fst corpus)" for nxt rs2
  proof -
    from nxt Suc.prems(1) have "nxt \<in> set (map fst ranks)" by simp
    from visit_ok [OF this] obtain ranks' where v: "visit ranks nxt = Inr ranks'"
      and k: "map fst ranks' = map fst ranks" and t: "total ranks' = total ranks + 1" by blast
    from k Suc.prems(1) have k': "map fst ranks' = map fst corpus" by simp
    from Suc.IH [OF k' nxt, of rs2] v t show ?thesis by (auto simp: algebra_simps)
  qed
  show ?case
  proof (cases "1 - d \<le> x")
    case True
    obtain y rs2 where r2: "random rs1 = (y, rs2)" by (cases "random rs1")
    have "pick m y 0 cur \<in> set (map fst corpus)"
      using pick_in [of m y 0 cur] mk Suc.prems(2) by auto
    from step [OF this, of rs2] show ?thesis
      using m r1 r2 True by (simp add: Let_def)
  next
    case False
    from Suc.prems(2) have ne: "length corpus \<noteq> 0" by auto
    then obtain idx rs2 where rr: "randrange (length corpus) rs1 = Inr (idx, rs2)"
      and idx: "idx < length corpus"
      by (simp add: randrange_def)
    have "map fst ranks ! idx \<in> set (map fst corpus)"
      using idx Suc.prems(1) by (metis length_map nth_mem)
    from step [OF this, of rs2] show ?thesis
      using m r1 rr False by (simp add: Let_def)
  qed
qed

lemma total_zero_fill:
  "distinct ks \<Longrightarrow> total (foldl (\<lambda>ranks page. AList.update page 0 ranks) [] ks) = 0"
  by (subst fill_fresh) (auto simp: total_const)

lemma total_scaled: "total (map (\<lambda>(page, v). (page, v / c)) ranks) = total ranks / c"
  by (induction ranks) (auto simp: total_def add_divide_distrib)

lemma sample_ok:
  assumes "crawled corpus" and "corpus \<noteq> []"
  shows "\<exists>r. sample_pagerank corpus d n rs = Inr r \<and> map fst r = map fst corpus
           \<and> total r = (1 + of_nat (nat (n - 1))) / SAMPLES"
proof -
  let ?ranks = "foldl (\<lambda>ranks page. AList.update page (0::rat) ranks) [] (map fst corpus)"
  from assms(1) have dist: "distinct (map fst corpus)" by (simp add: crawled_def wf_corpus_def)
  have shape: "?ranks = [] @ map (\<lambda>k. (k, 0)) (map fst corpus)"
    using dist by (intro fill_fresh) auto
  have keys: "map fst ?ranks = map fst corpus"
    unfolding shape by (simp add: comp_def)
  from assms(2) obtain idx rs1 where rr: "randrange (length corpus) rs = Inr (idx, rs1)"
    and idx: "idx < length corpus"
    by (simp add: randrange_def)
  have cur: "map fst ?ranks ! idx \<in> set (map fst corpus)"
    using idx keys by (metis length_map nth_mem)
  then have "map fst ?ranks ! idx \<in> set (map fst ?ranks)" using keys by simp
  from visit_ok [OF this] obtain ranks1 where v: "visit ?ranks (map fst ?ranks ! idx) = Inr ranks1"
    and k1: "map fst ranks1 = map fst ?ranks" and t1: "total ranks1 = total ?ranks + 1" by blast
  from k1 keys have k1': "map fst ranks1 = map fst corpus" by simp
  from walk_ok [OF assms(1) k1' cur, of "nat (n - 1)" d rs1]
  obtain ranks2 where w: "walk (nat (n - 1)) corpus d (map fst ?ranks ! idx) ranks1 rs1 = Inr ranks2"
    and k2: "map fst ranks2 = map fst corpus"
    and t2: "total ranks2 = total ranks1 + of_nat (nat (n - 1))" by blast
  have run: "sample_pagerank corpus d n rs = Inr (map (\<lambda>(page, v). (page, v / SAMPLES)) ranks2)"
    using rr v w by (simp add: sample_pagerank_def Let_def)
  have "map fst (map (\<lambda>(page, v). (page, v / SAMPLES)) ranks2) = map fst corpus"
    using k2 by (simp add: case_prod_unfold comp_def)
  moreover have "total (map (\<lambda>(page, v). (page, v / SAMPLES)) ranks2)
                   = (1 + of_nat (nat (n - 1))) / SAMPLES"
    using t1 t2 total_zero_fill [OF dist] by (simp add: total_scaled)
  ultimately show ?thesis using run by simp
qed

lemma sample_empty: "sample_pagerank [] d n rs = Inl ValueError"
  by (simp add: sample_pagerank_def randrange_def)

lemma transition_absent: "map_of corpus page = None \<Longrightarrow> transition_model corpus page d = Inl KeyError"
  by (simp add: transition_model_def lookup_def)

lemma transition_present:
  "map_of corpus page = Some links \<Longrightarrow> \<exists>m. transition_model corpus page d = Inr m"
  by (cases "links = []") (simp_all add: transition_sink transition_links)

lemma iterate_empty: "iterate_pagerank [] d = Some ([], Inr [])"
  by (simp add: iterate_pagerank_def init_ranks_def iterate_loop.simps)


lemma single_crawled: "crawled single_corpus"
  by (simp add: crawled_def wf_corpus_def single_corpus_def)

text \<open>
  Claim C2 at one sample. The visit counts are divided by the constant \<open>SAMPLES\<close>
  (10000), not by the number of samples \<open>n\<close>: with \<open>n = 1\<close> on the single-page graph
  the page gets rank 0.0001, whatever the random source, not 1.0.
\<close>

theorem sample_rank_one_sample:
  "sample_pagerank single_corpus DAMPING 1 rs = Inr [(''A'', 1 / 10000)]"
  by (simp add: sample_pagerank_def single_corpus_def randrange_def visit_def lookup_def
      SAMPLES_def)

text \<open>
  For a non-empty crawled graph, any damping, any random source and \<open>n \<ge> 1\<close>,
  \<open>sample_pagerank\<close> returns an assignment over the pages of the graph whose values
  sum to \<open>n / 10000\<close>: to 1 only when \<open>n\<close> is 10000.
\<close>

theorem sample_rank_total:
  assumes "crawled corpus" and "corpus \<noteq> []" and "1 \<le> n"
  shows "\<exists>r. sample_pagerank corpus d n rs = Inr r \<and> map fst r = map fst corpus
           \<and> total r = of_int n / 10000"
proof -
  from assms(3) have "(1 + of_nat (nat (n - 1)) :: rat) = of_int n"
    by (simp add: of_nat_nat)
  with sample_ok [OF assms(1,2), of d n rs] show ?thesis
    by (simp add: SAMPLES_def)
qed

theorem sample_rank_total_witness:
  "crawled single_corpus \<and> single_corpus \<noteq> [] \<and> (1::int) \<le> 7
   \<and> (\<exists>r. sample_pagerank single_corpus DAMPING 7 zero_source = Inr r
          \<and> total r = 7 / 10000)"
proof -
  have ne: "single_corpus \<noteq> []" by (simp add: single_corpus_def)
  have n: "(1::int) \<le> 7" by simp
  from sample_rank_total [OF single_crawled ne n, of DAMPING zero_source] single_crawled ne
  show ?thesis by auto
qed

text \<open>
  Claim C4, as the code behaves. \<open>transition_model\<close> raises \<open>KeyError\<close> exactly when
  the page is not a key of the graph. \<open>sample_pagerank\<close> raises \<open>ValueError\<close> on the
  empty graph and returns on every non-empty crawled graph, whatever the damping factor
  and the sample count. \<open>iterate_pagerank\<close> returns the empty assignment on the empty
  graph and never raises. No function checks the damping factor or the sample count.
\<close>

theorem invalid_arguments:
  "(map_of corpus page = None \<longrightarrow> transition_model corpus page d = Inl KeyError)
   \<and> (map_of corpus page \<noteq> None \<longrightarrow> (\<exists>m. transition_model corpus page d = Inr m))
   \<and> sample_pagerank [] d n rs = Inl ValueError
   \<and> (crawled corpus \<and> corpus \<noteq> [] \<longrightarrow> (\<exists>r. sample_pagerank corpus d n rs = Inr r))
   \<and> iterate_pagerank [] d = Some ([], Inr [])
   \<and> (distinct (map fst corpus) \<longrightarrow>
        (\<forall>corpus' e. iterate_pagerank corpus d \<noteq> Some (corpus', Inl e)))"
proof (intro conjI impI allI)
  assume "map_of corpus page = None"
  then show "transition_model corpus page d = Inl KeyError" by (rule transition_absent)
next
  assume "map_of corpus page \<noteq> None"
  then obtain links where "map_of corpus page = Some links" by auto
  then show "\<exists>m. transition_model corpus page d = Inr m" by (rule transition_present)
next
  show "sample_pagerank [] d n rs = Inl ValueError" by (rule sample_empty)
next
  assume "crawled corpus \<and> corpus \<noteq> []"
  then have "crawled corpus" "corpus \<noteq> []" by simp_all
  from sample_ok [OF this, of d n rs]
  show "\<exists>r. sample_pagerank corpus d n rs = Inr r" by blast
next
  show "iterate_pagerank [] d = Some ([], Inr [])" by (rule iterate_empty)
next
  fix corpus' e
  assume dist: "distinct (map fst corpus)"
  show "iterate_pagerank corpus d \<noteq> Some (corpus', Inl e)"
  proof
    assume "iterate_pagerank corpus d = Some (corpus', Inl e)"
    then have loop: "iterate_loop (sinks_rewritten corpus) d (init_ranks corpus) = Some (Inl e)"
      unfolding iterate_pagerank_eq [OF dist] by (simp split: option.splits)
    have keys: "map fst (init_ranks corpus) = map fst (sinks_rewritten corpus)"
      by (simp only: keys_init_ranks [OF dist] keys_sinks_rewritten)
    from iterate_loop_ok [OF loop keys] show False by simp
  qed
qed

theorem invalid_arguments_counterexample:
  "iterate_pagerank [] DAMPING = Some ([], Inr [])
   \<and> sample_pagerank single_corpus DAMPING 0 zero_source = Inr [(''A'', 1 / 10000)]
   \<and> sample_pagerank single_corpus 2 3 zero_source = Inr [(''A'', 3 / 10000)]
   \<and> transition_model single_corpus ''A'' 2 = Inr [(''A'', 1)]"
  by code_simp

theorem invalid_arguments_witness:
  "map_of single_corpus ''B'' = None \<and> transition_model single_corpus ''B'' DAMPING = Inl KeyError
   \<and> map_of single_corpus ''A'' \<noteq> None
   \<and> (\<exists>m. transition_model single_corpus ''A'' DAMPING = Inr m)
   \<and> crawled single_corpus \<and> single_corpus \<noteq> []
   \<and> (\<exists>r. sample_pagerank single_corpus DAMPING 0 zero_source = Inr r)
   \<and> distinct (map fst single_corpus)
   \<and> iterate_pagerank single_corpus DAMPING \<noteq> Some ([(''A'', [''A''])], Inl KeyError)"
proof -
  have b: "map_of single_corpus ''B'' = None" and a: "map_of single_corpus ''A'' \<noteq> None"
    and ne: "single_corpus \<noteq> []" and d: "distinct (map fst single_corpus)"
    by (simp_all add: single_corpus_def)
  from invalid_arguments [of single_corpus "''B''" DAMPING 0 zero_source] b
  have 1: "transition_model single_corpus ''B'' DAMPING = Inl KeyError" by blast
  from invalid_arguments [of single_corpus "''A''" DAMPING 0 zero_source] a single_crawled ne d
  have 2: "\<exists>m. transition_model single_corpus ''A'' DAMPING = Inr m"
    and 3: "\<exists>r. sample_pagerank single_corpus DAMPING 0 zero_source = Inr r"
    and 4: "iterate_pagerank single_corpus DAMPING \<noteq> Some ([(''A'', [''A''])], Inl KeyError)"
    by blast+
  from b a ne d single_crawled 1 2 3 4 show ?thesis by blast
qed

end
